theory Spec2Isabelle
  imports Complex_Main
begin

section \<open>JavaScript strings\<close>

text \<open>
  A JavaScript string is a sequence of UTF-16 code units; \<open>input[pos]\<close>, \<open>input.length\<close>
  and \<open>input.slice\<close> all count code units.  A code unit is modelled by its number, a
  string by the list of its code units.  The non-ASCII literals of the sources
  (the arrow of the production names, the epsilon label, the check mark and the cross)
  are single code units and are written by their numbers.
\<close>

type_synonym jsstring = "nat list"

definition str :: "string \<Rightarrow> jsstring" where
  "str s = map of_char s"

text \<open>Decimal rendering of a non-negative integer, as a template literal does it.\<close>

fun string_of_nat :: "nat \<Rightarrow> jsstring" where
  "string_of_nat n =
     (if n < 10 then [48 + n] else string_of_nat (n div 10) @ [48 + n mod 10])"

declare string_of_nat.simps [simp del]

definition slice :: "jsstring \<Rightarrow> nat \<Rightarrow> nat \<Rightarrow> jsstring" where
  "slice input start stop = take (stop - start) (drop start input)"


section \<open>Tokenizer (tokenizer.js)\<close>

datatype TokenType = NUMBER | ID | PLUS | MINUS | STAR | SLASH | LPAREN | RPAREN | EOF

text \<open>
  A token object \<open>{ type, value, pos, end }\<close>.  The parser's synthetic end-of-stream
  token has \<open>pos: -1\<close> and no \<open>end\<close> property, hence the integer position and the
  optional end.
\<close>

record token =
  ttype :: TokenType
  tvalue :: jsstring
  tpos :: int
  tend :: "int option"

definition createToken :: "TokenType \<Rightarrow> jsstring \<Rightarrow> nat \<Rightarrow> nat \<Rightarrow> token" where
  "createToken type val pos stop =
     \<lparr>ttype = type, tvalue = val, tpos = int pos, tend = Some (int stop)\<rparr>"

text \<open>The table \<open>SINGLE_CHAR_TOKENS\<close>, keyed by \<open>+ - * / ( )\<close>.\<close>

definition SINGLE_CHAR_TOKENS :: "nat \<rightharpoonup> TokenType" where
  "SINGLE_CHAR_TOKENS =
     [43 \<mapsto> PLUS, 45 \<mapsto> MINUS, 42 \<mapsto> STAR, 47 \<mapsto> SLASH, 40 \<mapsto> LPAREN, 41 \<mapsto> RPAREN]"

text \<open>
  The regular expressions of the scanner, each applied to one code unit:
  \<open>/\s/\<close> (the ECMAScript white space and line terminator code units),
  \<open>/[0-9]/\<close>, \<open>/[a-zA-Z_]/\<close> and \<open>/[a-zA-Z0-9_]/\<close>.
\<close>

definition is_whitespace :: "nat \<Rightarrow> bool" where
  "is_whitespace c \<longleftrightarrow>
     (9 \<le> c \<and> c \<le> 13) \<or> c = 32 \<or> c = 160 \<or> c = 5760 \<or> (8192 \<le> c \<and> c \<le> 8202)
     \<or> c = 8232 \<or> c = 8233 \<or> c = 8239 \<or> c = 8287 \<or> c = 12288 \<or> c = 65279"

definition is_digit :: "nat \<Rightarrow> bool" where
  "is_digit c \<longleftrightarrow> 48 \<le> c \<and> c \<le> 57"

definition is_id_start :: "nat \<Rightarrow> bool" where
  "is_id_start c \<longleftrightarrow> (97 \<le> c \<and> c \<le> 122) \<or> (65 \<le> c \<and> c \<le> 90) \<or> c = 95"

definition is_id_part :: "nat \<Rightarrow> bool" where
  "is_id_part c \<longleftrightarrow> is_id_start c \<or> is_digit c"

abbreviation dot :: nat where
  "dot \<equiv> 46"

abbreviation apostrophe :: nat where
  "apostrophe \<equiv> 39"

record lex_result =
  lex_tokens :: "token list"
  lex_error :: "jsstring option"
  lex_errorPos :: "nat option"

text \<open>
  The inner loop of the number branch: it returns the position at which the run stops.
  A second decimal point breaks out of the loop without being consumed.
\<close>

function number_loop :: "jsstring \<Rightarrow> nat \<Rightarrow> bool \<Rightarrow> nat" where
  "number_loop input pos hasDecimal =
     (if pos < length input \<and> (is_digit (input ! pos) \<or> input ! pos = dot) then
        if input ! pos = dot then
          if hasDecimal then pos else number_loop input (pos + 1) True
        else number_loop input (pos + 1) hasDecimal
      else pos)"
  by pat_completeness auto
termination
  by (relation "measure (\<lambda>(input, pos, hasDecimal). length input - pos)") auto

declare number_loop.simps [simp del]

text \<open>The inner loop of the identifier branch.\<close>

function id_loop :: "jsstring \<Rightarrow> nat \<Rightarrow> nat" where
  "id_loop input pos =
     (if pos < length input \<and> is_id_part (input ! pos) then id_loop input (pos + 1)
      else pos)"
  by pat_completeness auto
termination
  by (relation "measure (\<lambda>(input, pos). length input - pos)") auto

declare id_loop.simps [simp del]

lemma number_loop_le: "pos \<le> length input \<Longrightarrow> number_loop input pos d \<le> length input"
  by (induction input pos d rule: number_loop.induct) (simp add: number_loop.simps)

lemma number_loop_ge: "pos \<le> number_loop input pos d"
  by (induction input pos d rule: number_loop.induct)
     (subst number_loop.simps, auto)

lemma number_loop_advances:
  "pos < length input \<Longrightarrow> is_digit (input ! pos) \<Longrightarrow> pos < number_loop input pos False"
  using number_loop_ge [of "pos + 1" input False]
  by (subst number_loop.simps) (auto simp: is_digit_def)

lemma id_loop_le: "pos \<le> length input \<Longrightarrow> id_loop input pos \<le> length input"
  by (induction input pos rule: id_loop.induct) (simp add: id_loop.simps)

lemma id_loop_ge: "pos \<le> id_loop input pos"
  by (induction input pos rule: id_loop.induct) (subst id_loop.simps, auto)

lemma id_loop_advances:
  "pos < length input \<Longrightarrow> is_id_start (input ! pos) \<Longrightarrow> pos < id_loop input pos"
  using id_loop_ge [of "pos + 1" input]
  by (subst id_loop.simps) (auto simp: is_id_part_def)

text \<open>The message of a lexical error and the object returned with it.\<close>

definition unexpected_character :: "nat \<Rightarrow> nat \<Rightarrow> jsstring" where
  "unexpected_character c pos =
     str ''Unexpected character '' @ [apostrophe, c, apostrophe] @ str '' at position ''
       @ string_of_nat pos"

definition lexical_error :: "nat \<Rightarrow> nat \<Rightarrow> lex_result" where
  "lexical_error c pos =
     \<lparr>lex_tokens = [], lex_error = Some (unexpected_character c pos), lex_errorPos = Some pos\<rparr>"

text \<open>
  The outer \<open>while (pos < input.length)\<close> loop of \<open>tokenize\<close>, with the local variables
  \<open>pos\<close> and \<open>tokens\<close> as arguments, followed by the code after the loop.
\<close>

function tokenize_loop :: "jsstring \<Rightarrow> nat \<Rightarrow> token list \<Rightarrow> lex_result" where
  "tokenize_loop input pos tokens =
     (if pos < length input then
        let char = input ! pos in
        if is_whitespace char then tokenize_loop input (pos + 1) tokens
        else case SINGLE_CHAR_TOKENS char of
          Some type \<Rightarrow>
            tokenize_loop input (pos + 1) (tokens @ [createToken type [char] pos (pos + 1)])
        | None \<Rightarrow>
            if is_digit char then
              let start = pos; pos' = number_loop input pos False
              in tokenize_loop input pos'
                   (tokens @ [createToken NUMBER (slice input start pos') start pos'])
            else if is_id_start char then
              let start = pos; pos' = id_loop input pos
              in tokenize_loop input pos'
                   (tokens @ [createToken ID (slice input start pos') start pos'])
            else lexical_error char pos
      else
        \<lparr>lex_tokens = tokens @ [createToken EOF (str ''EOF'') pos pos],
         lex_error = None, lex_errorPos = None\<rparr>)"
  by pat_completeness auto
termination
proof (relation "measure (\<lambda>(input, pos, tokens). length input - pos)")
  show "wf (measure (\<lambda>(input, pos, tokens). length input - pos))"
    by simp
qed (auto dest: number_loop_advances id_loop_advances
      intro!: diff_less_mono2)

declare tokenize_loop.simps [simp del]

definition tokenize :: "jsstring \<Rightarrow> lex_result" where
  "tokenize input = tokenize_loop input 0 []"

text \<open>
  A code unit that starts no token: none of the four tests of the scanner accepts it, so
  the loop body falls through to the error return.
\<close>

definition unexpected :: "nat \<Rightarrow> bool" where
  "unexpected c \<longleftrightarrow>
     \<not> is_whitespace c \<and> SINGLE_CHAR_TOKENS c = None \<and> \<not> is_digit c \<and> \<not> is_id_start c"

text \<open>The token pushed after the loop for an input of \<open>n\<close> code units.\<close>

definition eof_token :: "nat \<Rightarrow> token" where
  "eof_token n = \<lparr>ttype = EOF, tvalue = str ''EOF'', tpos = int n, tend = Some (int n)\<rparr>"

text \<open>
  The one place where the scan accepts a character that starts no token: a dot met
  inside a digit run is taken as the decimal point of the number.  In terms of the input
  alone, position \<open>p\<close> holds such a decimal point when it holds a dot that directly
  follows a run of digits, and that run begins the input or follows whitespace or one of
  \<open>+ - * / ( )\<close> (so that the run is scanned as the start of a number and not as the
  tail of an identifier or as the fraction of a number that already has its dot).
  An offending character is one that starts no token and is not such a decimal point.
\<close>

definition boundary :: "jsstring \<Rightarrow> nat \<Rightarrow> bool" where
  "boundary input st \<longleftrightarrow>
     st = 0 \<or> is_whitespace (input ! (st - 1)) \<or> SINGLE_CHAR_TOKENS (input ! (st - 1)) \<noteq> None"

definition decimal_point :: "jsstring \<Rightarrow> nat \<Rightarrow> bool" where
  "decimal_point input p \<longleftrightarrow>
     p < length input \<and> input ! p = dot \<and>
     (\<exists>st\<in>set [0..<p]. (\<forall>i\<in>set [st..<p]. is_digit (input ! i)) \<and> boundary input st)"

definition offending :: "jsstring \<Rightarrow> nat \<Rightarrow> bool" where
  "offending input p \<longleftrightarrow> unexpected (input ! p) \<and> \<not> decimal_point input p"

text \<open>
  What holds of every position at which the scan starts a token: a digit there begins a
  number at a boundary, and the position holds no decimal point.
\<close>

definition scan_point :: "jsstring \<Rightarrow> nat \<Rightarrow> bool" where
  "scan_point input pos \<longleftrightarrow>
     (pos < length input \<longrightarrow> is_digit (input ! pos) \<longrightarrow> boundary input pos)
     \<and> \<not> decimal_point input pos"



section \<open>Parse tree nodes\<close>

text \<open>
  A node object \<open>{ label, children, id }\<close> as \<open>createNode\<close> builds it.  The layout
  engine later stores two more properties, \<open>_depth\<close> and \<open>_x\<close>, on the same objects;
  they are absent (\<open>None\<close>) until then.
\<close>

datatype node =
  Node (nid: nat) (label: jsstring) (children: "node list")
       (node_depth: "int option") (node_x: "rat option")


section \<open>Parser (parser.js)\<close>

record step =
  rule :: jsstring
  action :: jsstring
  token :: jsstring
  tokenType :: TokenType
  step_depth :: int
  timestamp :: nat

text \<open>
  The module-level variables of the parser.  Every function below reads and writes them;
  in the model each function takes their current values and returns the new ones.
\<close>

record parser_state =
  tokens :: "token list"
  currentIndex :: nat
  steps :: "step list"
  nodeId :: nat
  depth :: int

record ParseError =
  err_message :: jsstring
  err_pos :: int
  err_token :: token

abbreviation arrow :: nat where
  "arrow \<equiv> 8594"

abbreviation epsilon :: nat where
  "epsilon \<equiv> 949"

definition quoted :: "jsstring \<Rightarrow> jsstring" where
  "quoted s = [apostrophe] @ s @ [apostrophe]"

text \<open>The production names passed to \<open>logStep\<close> and the labels of the nonterminal nodes.\<close>

definition rule_E :: jsstring where
  "rule_E = str ''E '' @ [arrow] @ str '' T E'' @ [apostrophe]"

definition rule_EPrime_plus :: jsstring where
  "rule_EPrime_plus = str ''E' '' @ [arrow] @ str '' + T E'' @ [apostrophe]"

definition rule_EPrime_minus :: jsstring where
  "rule_EPrime_minus = str ''E' '' @ [arrow] @ str '' - T E'' @ [apostrophe]"

definition rule_EPrime_eps :: jsstring where
  "rule_EPrime_eps = str ''E' '' @ [arrow] @ str '' '' @ [epsilon]"

definition rule_T :: jsstring where
  "rule_T = str ''T '' @ [arrow] @ str '' F T'' @ [apostrophe]"

definition rule_TPrime_star :: jsstring where
  "rule_TPrime_star = str ''T' '' @ [arrow] @ str '' * F T'' @ [apostrophe]"

definition rule_TPrime_slash :: jsstring where
  "rule_TPrime_slash = str ''T' '' @ [arrow] @ str '' / F T'' @ [apostrophe]"

definition rule_TPrime_eps :: jsstring where
  "rule_TPrime_eps = str ''T' '' @ [arrow] @ str '' '' @ [epsilon]"

definition rule_F_paren :: jsstring where
  "rule_F_paren = str ''F '' @ [arrow] @ str '' ( E )''"

definition rule_F_number :: jsstring where
  "rule_F_number = str ''F '' @ [arrow] @ str '' number''"

definition rule_F_id :: jsstring where
  "rule_F_id = str ''F '' @ [arrow] @ str '' id''"

definition label_EPrime :: jsstring where
  "label_EPrime = str ''E'' @ [apostrophe]"

definition label_TPrime :: jsstring where
  "label_TPrime = str ''T'' @ [apostrophe]"

definition match :: "jsstring \<Rightarrow> jsstring" where
  "match glyph = str ''Match '' @ quoted glyph"

definition epsilon_action :: jsstring where
  "epsilon_action = str ''Epsilon (no match needed)''"

definition expected_factor :: jsstring where
  "expected_factor = str ''number, identifier, or '' @ [34, 40, 34]"

definition peek :: "parser_state \<Rightarrow> token" where
  "peek s =
     (if currentIndex s < length (tokens s) then tokens s ! currentIndex s
      else \<lparr>ttype = EOF, tvalue = str ''EOF'', tpos = - 1, tend = None\<rparr>)"

text \<open>\<open>consume\<close> returns the token it steps over; no caller uses the returned value.\<close>

definition consume :: "parser_state \<Rightarrow> parser_state" where
  "consume s = s\<lparr>currentIndex := currentIndex s + 1\<rparr>"

definition createNode :: "jsstring \<Rightarrow> node list \<Rightarrow> parser_state \<Rightarrow> node \<times> parser_state" where
  "createNode lbl cs s = (Node (nodeId s) lbl cs None None, s\<lparr>nodeId := nodeId s + 1\<rparr>)"

definition logStep :: "jsstring \<Rightarrow> jsstring \<Rightarrow> parser_state \<Rightarrow> parser_state" where
  "logStep r a s =
     s\<lparr>steps := steps s @
        [\<lparr>rule = r, action = a, token = tvalue (peek s), tokenType = ttype (peek s),
          step_depth = depth s, timestamp = length (steps s)\<rparr>]\<rparr>"

definition parseError :: "jsstring \<Rightarrow> parser_state \<Rightarrow> ParseError" where
  "parseError expected s =
     (let token = peek s;
          posInfo = (if tpos token \<ge> 0
                     then str '' at position '' @ string_of_nat (nat (tpos token)) else []);
          got = (if ttype token = EOF then str ''end of input'' else quoted (tvalue token))
      in \<lparr>err_message = str ''Syntax Error'' @ posInfo @ str '': Expected '' @ expected
              @ str '', but found '' @ got,
          err_pos = tpos token, err_token = token\<rparr>)"

text \<open>The statements \<open>depth++\<close> and \<open>depth--\<close>.\<close>

definition enter :: "parser_state \<Rightarrow> parser_state" where
  "enter s = s\<lparr>depth := depth s + 1\<rparr>"

definition leave :: "parser_state \<Rightarrow> parser_state" where
  "leave s = s\<lparr>depth := depth s - 1\<rparr>"

text \<open>
  A call either throws a \<open>ParseError\<close> (\<open>Inl\<close>) or returns a value (\<open>Inr\<close>); in both
  cases the module variables are left as they are at that moment.
\<close>

type_synonym 'a outcome = "(ParseError + 'a) \<times> parser_state"

function parseE :: "parser_state \<Rightarrow> node outcome"
  and parseEPrime :: "parser_state \<Rightarrow> node outcome"
  and parseT :: "parser_state \<Rightarrow> node outcome"
  and parseTPrime :: "parser_state \<Rightarrow> node outcome"
  and parseF :: "parser_state \<Rightarrow> node outcome"
where
  "parseE s =
     (let s1 = logStep rule_E (str ''Enter E'') (enter s)
      in case parseT s1 of
           (Inl err, s2) \<Rightarrow> (Inl err, s2)
         | (Inr tNode, s2) \<Rightarrow>
             (case parseEPrime s2 of
                (Inl err, s3) \<Rightarrow> (Inl err, s3)
              | (Inr ePrimeNode, s3) \<Rightarrow>
                  (let (node, s4) = createNode (str ''E'') [tNode, ePrimeNode] s3;
                       s5 = logStep rule_E (str ''Exit E'') s4
                   in (Inr node, leave s5))))"
| "parseEPrime s =
     (let s1 = enter s; token = peek s1 in
      if ttype token = PLUS then
        (let s2 = logStep rule_EPrime_plus (match (str ''+'')) s1;
             s3 = consume s2;
             (plusNode, s4) = createNode (str ''+'') [] s3
         in case parseT s4 of
              (Inl err, s5) \<Rightarrow> (Inl err, s5)
            | (Inr tNode, s5) \<Rightarrow>
                (case parseEPrime s5 of
                   (Inl err, s6) \<Rightarrow> (Inl err, s6)
                 | (Inr ePrimeNode, s6) \<Rightarrow>
                     (let (node, s7) = createNode label_EPrime [plusNode, tNode, ePrimeNode] s6
                      in (Inr node, leave s7))))
      else if ttype token = MINUS then
        (let s2 = logStep rule_EPrime_minus (match (str ''-'')) s1;
             s3 = consume s2;
             (minusNode, s4) = createNode (str ''-'') [] s3
         in case parseT s4 of
              (Inl err, s5) \<Rightarrow> (Inl err, s5)
            | (Inr tNode, s5) \<Rightarrow>
                (case parseEPrime s5 of
                   (Inl err, s6) \<Rightarrow> (Inl err, s6)
                 | (Inr ePrimeNode, s6) \<Rightarrow>
                     (let (node, s7) = createNode label_EPrime [minusNode, tNode, ePrimeNode] s6
                      in (Inr node, leave s7))))
      else
        (let s2 = logStep rule_EPrime_eps epsilon_action s1;
             (epsNode, s3) = createNode [epsilon] [] s2;
             (node, s4) = createNode label_EPrime [epsNode] s3
         in (Inr node, leave s4)))"
| "parseT s =
     (let s1 = logStep rule_T (str ''Enter T'') (enter s)
      in case parseF s1 of
           (Inl err, s2) \<Rightarrow> (Inl err, s2)
         | (Inr fNode, s2) \<Rightarrow>
             (case parseTPrime s2 of
                (Inl err, s3) \<Rightarrow> (Inl err, s3)
              | (Inr tPrimeNode, s3) \<Rightarrow>
                  (let (node, s4) = createNode (str ''T'') [fNode, tPrimeNode] s3;
                       s5 = logStep rule_T (str ''Exit T'') s4
                   in (Inr node, leave s5))))"
| "parseTPrime s =
     (let s1 = enter s; token = peek s1 in
      if ttype token = STAR then
        (let s2 = logStep rule_TPrime_star (match (str ''*'')) s1;
             s3 = consume s2;
             (starNode, s4) = createNode (str ''*'') [] s3
         in case parseF s4 of
              (Inl err, s5) \<Rightarrow> (Inl err, s5)
            | (Inr fNode, s5) \<Rightarrow>
                (case parseTPrime s5 of
                   (Inl err, s6) \<Rightarrow> (Inl err, s6)
                 | (Inr tPrimeNode, s6) \<Rightarrow>
                     (let (node, s7) = createNode label_TPrime [starNode, fNode, tPrimeNode] s6
                      in (Inr node, leave s7))))
      else if ttype token = SLASH then
        (let s2 = logStep rule_TPrime_slash (match (str ''/'')) s1;
             s3 = consume s2;
             (slashNode, s4) = createNode (str ''/'') [] s3
         in case parseF s4 of
              (Inl err, s5) \<Rightarrow> (Inl err, s5)
            | (Inr fNode, s5) \<Rightarrow>
                (case parseTPrime s5 of
                   (Inl err, s6) \<Rightarrow> (Inl err, s6)
                 | (Inr tPrimeNode, s6) \<Rightarrow>
                     (let (node, s7) = createNode label_TPrime [slashNode, fNode, tPrimeNode] s6
                      in (Inr node, leave s7))))
      else
        (let s2 = logStep rule_TPrime_eps epsilon_action s1;
             (epsNode, s3) = createNode [epsilon] [] s2;
             (node, s4) = createNode label_TPrime [epsNode] s3
         in (Inr node, leave s4)))"
| "parseF s =
     (let s1 = enter s; token = peek s1 in
      if ttype token = LPAREN then
        (let s2 = logStep rule_F_paren (match (str ''('')) s1;
             s3 = consume s2;
             (lparenNode, s4) = createNode (str ''('') [] s3
         in case parseE s4 of
              (Inl err, s5) \<Rightarrow> (Inl err, s5)
            | (Inr eNode, s5) \<Rightarrow>
                (let closeParen = peek s5 in
                 if ttype closeParen \<noteq> RPAREN then (Inl (parseError (quoted (str '')'')) s5), s5)
                 else
                   (let s6 = logStep rule_F_paren (match (str '')'')) s5;
                        s7 = consume s6;
                        (rparenNode, s8) = createNode (str '')'') [] s7;
                        (node, s9) = createNode (str ''F'') [lparenNode, eNode, rparenNode] s8
                    in (Inr node, leave s9))))
      else if ttype token = NUMBER then
        (let s2 = logStep rule_F_number (str ''Match number '' @ quoted (tvalue token)) s1;
             s3 = consume s2;
             (leaf, s4) = createNode (tvalue token) [] s3;
             (node, s5) = createNode (str ''F'') [leaf] s4
         in (Inr node, leave s5))
      else if ttype token = ID then
        (let s2 = logStep rule_F_id (str ''Match identifier '' @ quoted (tvalue token)) s1;
             s3 = consume s2;
             (leaf, s4) = createNode (tvalue token) [] s3;
             (node, s5) = createNode (str ''F'') [leaf] s4
         in (Inr node, leave s5))
      else (Inl (parseError expected_factor s1), s1))"
  by pat_completeness auto

subsection \<open>The calls of the parser as a derivation system\<close>

text \<open>
  \<open>run nt s r t\<close>: the function for nonterminal \<open>nt\<close>, called with the module variables
  \<open>s\<close>, ends with outcome \<open>r\<close> and leaves the module variables \<open>t\<close>.  There is one rule
  for each path through a function body; \<open>E\<close>/\<open>T\<close> and \<open>E'\<close>/\<open>T'\<close> share their rules
  through the tables below.  The relation is derived from the functions
  (\<open>run_parse\<close>) and only serves to prove their properties by rule induction.
\<close>

datatype nonterm = NT_E | NT_EPrime | NT_T | NT_TPrime | NT_F

fun parse_nt :: "nonterm \<Rightarrow> parser_state \<Rightarrow> node outcome" where
  "parse_nt NT_E = parseE"
| "parse_nt NT_EPrime = parseEPrime"
| "parse_nt NT_T = parseT"
| "parse_nt NT_TPrime = parseTPrime"
| "parse_nt NT_F = parseF"

text \<open>For \<open>E\<close> and \<open>T\<close>: the two callees, the production name, the two actions, the label.\<close>

fun level :: "nonterm \<Rightarrow> (nonterm \<times> nonterm \<times> jsstring \<times> jsstring \<times> jsstring \<times> jsstring) option" where
  "level NT_E = Some (NT_T, NT_EPrime, rule_E, str ''Enter E'', str ''Exit E'', str ''E'')"
| "level NT_T = Some (NT_F, NT_TPrime, rule_T, str ''Enter T'', str ''Exit T'', str ''T'')"
| "level _ = None"

text \<open>For \<open>E'\<close> and \<open>T'\<close>: the callee, the label, the name of the epsilon production.\<close>

fun prime :: "nonterm \<Rightarrow> (nonterm \<times> jsstring \<times> jsstring) option" where
  "prime NT_EPrime = Some (NT_T, label_EPrime, rule_EPrime_eps)"
| "prime NT_TPrime = Some (NT_F, label_TPrime, rule_TPrime_eps)"
| "prime _ = None"

text \<open>The operator alternatives of \<open>E'\<close> and \<open>T'\<close>: production name and glyph.\<close>

fun operator :: "nonterm \<Rightarrow> TokenType \<Rightarrow> (jsstring \<times> jsstring) option" where
  "operator NT_EPrime PLUS = Some (rule_EPrime_plus, str ''+'')"
| "operator NT_EPrime MINUS = Some (rule_EPrime_minus, str ''-'')"
| "operator NT_TPrime STAR = Some (rule_TPrime_star, str ''*'')"
| "operator NT_TPrime SLASH = Some (rule_TPrime_slash, str ''/'')"
| "operator _ _ = None"

text \<open>The two terminal alternatives of \<open>F\<close>: production name and the head of the action.\<close>

fun terminal :: "TokenType \<Rightarrow> (jsstring \<times> jsstring) option" where
  "terminal NUMBER = Some (rule_F_number, str ''Match number '')"
| "terminal ID = Some (rule_F_id, str ''Match identifier '')"
| "terminal _ = None"

inductive run :: "nonterm \<Rightarrow> parser_state \<Rightarrow> ParseError + node \<Rightarrow> parser_state \<Rightarrow> bool" where
  level_throw1:
    "level nt = Some (sub, pr, rl, ent, ext, lbl) \<Longrightarrow>
     run sub (logStep rl ent (enter s)) (Inl err) t \<Longrightarrow>
     run nt s (Inl err) t"
| level_throw2:
    "level nt = Some (sub, pr, rl, ent, ext, lbl) \<Longrightarrow>
     run sub (logStep rl ent (enter s)) (Inr n1) s2 \<Longrightarrow>
     run pr s2 (Inl err) t \<Longrightarrow>
     run nt s (Inl err) t"
| level_return:
    "level nt = Some (sub, pr, rl, ent, ext, lbl) \<Longrightarrow>
     run sub (logStep rl ent (enter s)) (Inr n1) s2 \<Longrightarrow>
     run pr s2 (Inr n2) s3 \<Longrightarrow>
     createNode lbl [n1, n2] s3 = (node, s4) \<Longrightarrow>
     run nt s (Inr node) (leave (logStep rl ext s4))"
| prime_throw1:
    "prime nt = Some (sub, lbl, eps) \<Longrightarrow>
     operator nt (ttype (peek (enter s))) = Some (rl, glyph) \<Longrightarrow>
     createNode glyph [] (consume (logStep rl (match glyph) (enter s))) = (n0, s4) \<Longrightarrow>
     run sub s4 (Inl err) t \<Longrightarrow>
     run nt s (Inl err) t"
| prime_throw2:
    "prime nt = Some (sub, lbl, eps) \<Longrightarrow>
     operator nt (ttype (peek (enter s))) = Some (rl, glyph) \<Longrightarrow>
     createNode glyph [] (consume (logStep rl (match glyph) (enter s))) = (n0, s4) \<Longrightarrow>
     run sub s4 (Inr n1) s5 \<Longrightarrow>
     run nt s5 (Inl err) t \<Longrightarrow>
     run nt s (Inl err) t"
| prime_return:
    "prime nt = Some (sub, lbl, eps) \<Longrightarrow>
     operator nt (ttype (peek (enter s))) = Some (rl, glyph) \<Longrightarrow>
     createNode glyph [] (consume (logStep rl (match glyph) (enter s))) = (n0, s4) \<Longrightarrow>
     run sub s4 (Inr n1) s5 \<Longrightarrow>
     run nt s5 (Inr n2) s6 \<Longrightarrow>
     createNode lbl [n0, n1, n2] s6 = (node, s7) \<Longrightarrow>
     run nt s (Inr node) (leave s7)"
| prime_epsilon:
    "prime nt = Some (sub, lbl, eps) \<Longrightarrow>
     operator nt (ttype (peek (enter s))) = None \<Longrightarrow>
     createNode [epsilon] [] (logStep eps epsilon_action (enter s)) = (n0, s3) \<Longrightarrow>
     createNode lbl [n0] s3 = (node, s4) \<Longrightarrow>
     run nt s (Inr node) (leave s4)"
| F_paren_throw1:
    "ttype (peek (enter s)) = LPAREN \<Longrightarrow>
     createNode (str ''('') [] (consume (logStep rule_F_paren (match (str ''('')) (enter s))) = (n0, s4) \<Longrightarrow>
     run NT_E s4 (Inl err) t \<Longrightarrow>
     run NT_F s (Inl err) t"
| F_paren_throw2:
    "ttype (peek (enter s)) = LPAREN \<Longrightarrow>
     createNode (str ''('') [] (consume (logStep rule_F_paren (match (str ''('')) (enter s))) = (n0, s4) \<Longrightarrow>
     run NT_E s4 (Inr n1) s5 \<Longrightarrow>
     ttype (peek s5) \<noteq> RPAREN \<Longrightarrow>
     run NT_F s (Inl (parseError (quoted (str '')'')) s5)) s5"
| F_paren_return:
    "ttype (peek (enter s)) = LPAREN \<Longrightarrow>
     createNode (str ''('') [] (consume (logStep rule_F_paren (match (str ''('')) (enter s))) = (n0, s4) \<Longrightarrow>
     run NT_E s4 (Inr n1) s5 \<Longrightarrow>
     ttype (peek s5) = RPAREN \<Longrightarrow>
     createNode (str '')'') [] (consume (logStep rule_F_paren (match (str '')'')) s5)) = (n2, s8) \<Longrightarrow>
     createNode (str ''F'') [n0, n1, n2] s8 = (node, s9) \<Longrightarrow>
     run NT_F s (Inr node) (leave s9)"
| F_terminal:
    "terminal (ttype (peek (enter s))) = Some (rl, act) \<Longrightarrow>
     createNode (tvalue (peek (enter s))) []
       (consume (logStep rl (act @ quoted (tvalue (peek (enter s)))) (enter s))) = (leaf, s4) \<Longrightarrow>
     createNode (str ''F'') [leaf] s4 = (node, s5) \<Longrightarrow>
     run NT_F s (Inr node) (leave s5)"
| F_throw:
    "ttype (peek (enter s)) \<noteq> LPAREN \<Longrightarrow>
     terminal (ttype (peek (enter s))) = None \<Longrightarrow>
     run NT_F s (Inl (parseError expected_factor (enter s))) (enter s)"

lemma peek_in_range: "ttype (peek s) \<noteq> EOF \<Longrightarrow> currentIndex s < length (tokens s)"
  by (auto simp: peek_def split: if_splits)

lemma prim_tokens [simp]:
  "tokens (enter s) = tokens s" "tokens (leave s) = tokens s" "tokens (consume s) = tokens s"
  "tokens (logStep r a s) = tokens s"
  by (simp_all add: enter_def leave_def consume_def logStep_def)

lemma prim_currentIndex [simp]:
  "currentIndex (enter s) = currentIndex s" "currentIndex (leave s) = currentIndex s"
  "currentIndex (consume s) = currentIndex s + 1"
  "currentIndex (logStep r a s) = currentIndex s"
  by (simp_all add: enter_def leave_def consume_def logStep_def)

lemma peek_prim [simp]:
  "peek (enter s) = peek s" "peek (leave s) = peek s" "peek (logStep r a s) = peek s"
  by (simp_all add: peek_def)

lemma operator_not_EOF: "operator nt ty = Some x \<Longrightarrow> ty \<noteq> EOF"
  by (cases nt; cases ty) auto

lemma run_index:
  "run nt s r t \<Longrightarrow> tokens t = tokens s \<and> currentIndex s \<le> currentIndex t"
  by (induction rule: run.induct) (auto simp: createNode_def)


lemmas E_rules = level_throw1 [OF level.simps(1)] level_throw2 [OF level.simps(1)]
  level_return [OF level.simps(1)]

lemmas T_rules = level_throw1 [OF level.simps(2)] level_throw2 [OF level.simps(2)]
  level_return [OF level.simps(2)]

lemmas EPrime_rules = prime_throw1 [OF prime.simps(1)] prime_throw2 [OF prime.simps(1)]
  prime_return [OF prime.simps(1)] prime_epsilon [OF prime.simps(1)]

lemmas TPrime_rules = prime_throw1 [OF prime.simps(2)] prime_throw2 [OF prime.simps(2)]
  prime_return [OF prime.simps(2)] prime_epsilon [OF prime.simps(2)]


text \<open>
  The bodies of the functions behind their first statements, for arbitrary callees:
  what they compute is derivable as soon as what the callees compute is.
\<close>

definition level_body ::
  "(parser_state \<Rightarrow> node outcome) \<Rightarrow> (parser_state \<Rightarrow> node outcome) \<Rightarrow>
   jsstring \<Rightarrow> jsstring \<Rightarrow> jsstring \<Rightarrow> parser_state \<Rightarrow> node outcome" where
  "level_body f g rl ext lbl s1 =
     (case f s1 of
        (Inl err, s2) \<Rightarrow> (Inl err, s2)
      | (Inr n1, s2) \<Rightarrow>
          (case g s2 of
             (Inl err, s3) \<Rightarrow> (Inl err, s3)
           | (Inr n2, s3) \<Rightarrow>
               (let (node, s4) = createNode lbl [n1, n2] s3; s5 = logStep rl ext s4
                in (Inr node, leave s5))))"

definition prime_body ::
  "(parser_state \<Rightarrow> node outcome) \<Rightarrow> (parser_state \<Rightarrow> node outcome) \<Rightarrow>
   jsstring \<Rightarrow> node \<Rightarrow> parser_state \<Rightarrow> node outcome" where
  "prime_body f g lbl n0 s4 =
     (case f s4 of
        (Inl err, s5) \<Rightarrow> (Inl err, s5)
      | (Inr n1, s5) \<Rightarrow>
          (case g s5 of
             (Inl err, s6) \<Rightarrow> (Inl err, s6)
           | (Inr n2, s6) \<Rightarrow>
               (let (node, s7) = createNode lbl [n0, n1, n2] s6 in (Inr node, leave s7))))"

definition paren_body :: "(parser_state \<Rightarrow> node outcome) \<Rightarrow> node \<Rightarrow> parser_state \<Rightarrow> node outcome" where
  "paren_body f n0 s4 =
     (case f s4 of
        (Inl err, s5) \<Rightarrow> (Inl err, s5)
      | (Inr n1, s5) \<Rightarrow>
          (let closeParen = peek s5 in
           if ttype closeParen \<noteq> RPAREN then (Inl (parseError (quoted (str '')'')) s5), s5)
           else
             (let s6 = logStep rule_F_paren (match (str '')'')) s5;
                  s7 = consume s6;
                  (n2, s8) = createNode (str '')'') [] s7;
                  (node, s9) = createNode (str ''F'') [n0, n1, n2] s8
              in (Inr node, leave s9))))"

lemma level_step:
  assumes "level nt = Some (sub, pr, rl, ent, ext, lbl)"
    and "run sub (logStep rl ent (enter s)) (fst (f (logStep rl ent (enter s))))
           (snd (f (logStep rl ent (enter s))))"
    and "\<And>n1 s2. f (logStep rl ent (enter s)) = (Inr n1, s2) \<Longrightarrow> run pr s2 (fst (g s2)) (snd (g s2))"
  shows "run nt s (fst (level_body f g rl ext lbl (logStep rl ent (enter s))))
           (snd (level_body f g rl ext lbl (logStep rl ent (enter s))))"
proof -
  let ?s1 = "logStep rl ent (enter s)"
  obtain r2 s2 where F: "f ?s1 = (r2, s2)"
    by (cases "f ?s1")
  show ?thesis
  proof (cases r2)
    case (Inl err)
    then show ?thesis
      using assms(2) F by (simp add: level_body_def level_throw1 [OF assms(1)])
  next
    case r2: (Inr n1)
    obtain r3 s3 where G: "g s2 = (r3, s3)"
      by (cases "g s2")
    have "run pr s2 r3 s3"
      using assms(3) [of n1 s2] F r2 G by simp
    moreover have "run sub ?s1 (Inr n1) s2"
      using assms(2) F r2 by simp
    ultimately show ?thesis
      using F r2 G
      by (cases r3)
         (auto simp: level_body_def split: prod.splits
               intro: level_throw2 [OF assms(1)] level_return [OF assms(1)])
  qed
qed

lemma prime_step:
  assumes "prime nt = Some (sub, lbl, eps)"
    and "operator nt (ttype (peek (enter s))) = Some (rl, glyph)"
    and "createNode glyph [] (consume (logStep rl (match glyph) (enter s))) = (n0, s4)"
    and "run sub s4 (fst (f s4)) (snd (f s4))"
    and "\<And>n1 s5. f s4 = (Inr n1, s5) \<Longrightarrow> run nt s5 (fst (g s5)) (snd (g s5))"
  shows "run nt s (fst (prime_body f g lbl n0 s4)) (snd (prime_body f g lbl n0 s4))"
proof -
  obtain r5 s5 where F: "f s4 = (r5, s5)"
    by (cases "f s4")
  show ?thesis
  proof (cases r5)
    case (Inl err)
    then show ?thesis
      using assms(4) F by (simp add: prime_body_def prime_throw1 [OF assms(1,2,3)])
  next
    case r5: (Inr n1)
    obtain r6 s6 where G: "g s5 = (r6, s6)"
      by (cases "g s5")
    have "run nt s5 r6 s6"
      using assms(5) [of n1 s5] F r5 G by simp
    moreover have "run sub s4 (Inr n1) s5"
      using assms(4) F r5 by simp
    ultimately show ?thesis
      using F r5 G
      by (cases r6)
         (auto simp: prime_body_def split: prod.splits
               intro: prime_throw2 [OF assms(1,2,3)] prime_return [OF assms(1,2,3)])
  qed
qed

lemma paren_step:
  assumes "ttype (peek (enter s)) = LPAREN"
    and "createNode (str ''('') [] (consume (logStep rule_F_paren (match (str ''('')) (enter s))) = (n0, s4)"
    and "run NT_E s4 (fst (f s4)) (snd (f s4))"
  shows "run NT_F s (fst (paren_body f n0 s4)) (snd (paren_body f n0 s4))"
proof -
  obtain r5 s5 where F: "f s4 = (r5, s5)"
    by (cases "f s4")
  show ?thesis
    using assms(3) F
    by (cases r5)
       (auto simp: paren_body_def Let_def split: prod.splits
             intro: F_paren_throw1 [OF assms(1,2)] F_paren_throw2 [OF assms(1,2)]
                    F_paren_return [OF assms(1,2)])
qed

lemma run_parse_partial:
  "parseE_parseEPrime_parseT_parseTPrime_parseF_dom (Inl (Inl s)) \<Longrightarrow>
     run NT_E s (fst (parseE s)) (snd (parseE s))"
  "parseE_parseEPrime_parseT_parseTPrime_parseF_dom (Inl (Inr s')) \<Longrightarrow>
     run NT_EPrime s' (fst (parseEPrime s')) (snd (parseEPrime s'))"
  "parseE_parseEPrime_parseT_parseTPrime_parseF_dom (Inr (Inl s'')) \<Longrightarrow>
     run NT_T s'' (fst (parseT s'')) (snd (parseT s''))"
  "parseE_parseEPrime_parseT_parseTPrime_parseF_dom (Inr (Inr (Inl s3))) \<Longrightarrow>
     run NT_TPrime s3 (fst (parseTPrime s3)) (snd (parseTPrime s3))"
  "parseE_parseEPrime_parseT_parseTPrime_parseF_dom (Inr (Inr (Inr s4))) \<Longrightarrow>
     run NT_F s4 (fst (parseF s4)) (snd (parseF s4))"
proof (induction s and s' and s'' and s3 and s4
       rule: parseE_parseEPrime_parseT_parseTPrime_parseF.pinduct)
  case (1 s)
  have eq: "parseE s = level_body parseT parseEPrime rule_E (str ''Exit E'') (str ''E'')
                         (logStep rule_E (str ''Enter E'') (enter s))"
    by (simp add: parseE.psimps [OF "1.hyps"] level_body_def)
  show ?case
    unfolding eq
    by (rule level_step [where f = parseT and g = parseEPrime, OF level.simps(1) "1.IH"(1) [OF refl]
                 "1.IH"(2) [OF refl sym refl]])
next
  case (2 s)
  show ?case
  proof (cases "operator NT_EPrime (ttype (peek s))")
    case None
    obtain n0 s3 where C1: "createNode [epsilon] [] (logStep rule_EPrime_eps epsilon_action (enter s)) = (n0, s3)"
      by force
    obtain node s4 where C2: "createNode label_EPrime [n0] s3 = (node, s4)"
      by force
    have ty: "ttype (peek s) \<noteq> PLUS" "ttype (peek s) \<noteq> MINUS"
      using None by auto
    have eq: "parseEPrime s = (Inr node, leave s4)"
      using ty C1 C2 by (simp add: parseEPrime.psimps [OF "2.hyps"])
    show ?thesis
      unfolding eq fst_conv snd_conv
      by (rule prime_epsilon [OF prime.simps(1) _ C1 C2]) (simp add: None)
  next
    case (Some a)
    show ?thesis
    proof (cases "ttype (peek s) = PLUS")
      case True
      have P: "ttype (peek (enter s)) = PLUS"
        using True by simp
      obtain n0 s4 where C: "createNode (str ''+'') []
          (consume (logStep rule_EPrime_plus (match (str ''+'')) (enter s))) = (n0, s4)"
        by force
      have eq: "parseEPrime s = prime_body parseT parseEPrime label_EPrime n0 s4"
        using True C by (simp add: parseEPrime.psimps [OF "2.hyps"] prime_body_def)
      show ?thesis
        unfolding eq
        by (rule prime_step [where f = parseT and g = parseEPrime, OF prime.simps(1) _ C
              "2.IH"(1) [OF refl refl P refl refl refl C [symmetric]]
              "2.IH"(2) [OF refl refl P refl refl refl C [symmetric] sym refl]])
           (simp add: True)
    next
      case False
      then have M: "ttype (peek s) = MINUS"
        using Some by (cases "ttype (peek s)") auto
      have NP: "ttype (peek (enter s)) \<noteq> PLUS" and P: "ttype (peek (enter s)) = MINUS"
        using False M by simp_all
      obtain n0 s4 where C: "createNode (str ''-'') []
          (consume (logStep rule_EPrime_minus (match (str ''-'')) (enter s))) = (n0, s4)"
        by force
      have eq: "parseEPrime s = prime_body parseT parseEPrime label_EPrime n0 s4"
        using M C by (simp add: parseEPrime.psimps [OF "2.hyps"] prime_body_def)
      show ?thesis
        unfolding eq
        by (rule prime_step [where f = parseT and g = parseEPrime, OF prime.simps(1) _ C
              "2.IH"(3) [OF refl refl NP P refl refl refl C [symmetric]]
              "2.IH"(4) [OF refl refl NP P refl refl refl C [symmetric] sym refl]])
           (simp add: M)
    qed
  qed
next
  case (3 s)
  have eq: "parseT s = level_body parseF parseTPrime rule_T (str ''Exit T'') (str ''T'')
                         (logStep rule_T (str ''Enter T'') (enter s))"
    by (simp add: parseT.psimps [OF "3.hyps"] level_body_def)
  show ?case
    unfolding eq
    by (rule level_step [where f = parseF and g = parseTPrime, OF level.simps(2) "3.IH"(1) [OF refl]
                 "3.IH"(2) [OF refl sym refl]])
next
  case (4 s)
  show ?case
  proof (cases "operator NT_TPrime (ttype (peek s))")
    case None
    obtain n0 s3 where C1: "createNode [epsilon] [] (logStep rule_TPrime_eps epsilon_action (enter s)) = (n0, s3)"
      by force
    obtain node s4 where C2: "createNode label_TPrime [n0] s3 = (node, s4)"
      by force
    have ty: "ttype (peek s) \<noteq> STAR" "ttype (peek s) \<noteq> SLASH"
      using None by auto
    have eq: "parseTPrime s = (Inr node, leave s4)"
      using ty C1 C2 by (simp add: parseTPrime.psimps [OF "4.hyps"])
    show ?thesis
      unfolding eq fst_conv snd_conv
      by (rule prime_epsilon [OF prime.simps(2) _ C1 C2]) (simp add: None)
  next
    case (Some a)
    show ?thesis
    proof (cases "ttype (peek s) = STAR")
      case True
      have P: "ttype (peek (enter s)) = STAR"
        using True by simp
      obtain n0 s4 where C: "createNode (str ''*'') []
          (consume (logStep rule_TPrime_star (match (str ''*'')) (enter s))) = (n0, s4)"
        by force
      have eq: "parseTPrime s = prime_body parseF parseTPrime label_TPrime n0 s4"
        using True C by (simp add: parseTPrime.psimps [OF "4.hyps"] prime_body_def)
      show ?thesis
        unfolding eq
        by (rule prime_step [where f = parseF and g = parseTPrime, OF prime.simps(2) _ C
              "4.IH"(1) [OF refl refl P refl refl refl C [symmetric]]
              "4.IH"(2) [OF refl refl P refl refl refl C [symmetric] sym refl]])
           (simp add: True)
    next
      case False
      then have M: "ttype (peek s) = SLASH"
        using Some by (cases "ttype (peek s)") auto
      have NP: "ttype (peek (enter s)) \<noteq> STAR" and P: "ttype (peek (enter s)) = SLASH"
        using False M by simp_all
      obtain n0 s4 where C: "createNode (str ''/'') []
          (consume (logStep rule_TPrime_slash (match (str ''/'')) (enter s))) = (n0, s4)"
        by force
      have eq: "parseTPrime s = prime_body parseF parseTPrime label_TPrime n0 s4"
        using M C by (simp add: parseTPrime.psimps [OF "4.hyps"] prime_body_def)
      show ?thesis
        unfolding eq
        by (rule prime_step [where f = parseF and g = parseTPrime, OF prime.simps(2) _ C
              "4.IH"(3) [OF refl refl NP P refl refl refl C [symmetric]]
              "4.IH"(4) [OF refl refl NP P refl refl refl C [symmetric] sym refl]])
           (simp add: M)
    qed
  qed
next
  case (5 s)
  show ?case
  proof (cases "ttype (peek s) = LPAREN")
    case True
    have P: "ttype (peek (enter s)) = LPAREN"
      using True by simp
    obtain n0 s4 where C: "createNode (str ''('') []
        (consume (logStep rule_F_paren (match (str ''('')) (enter s))) = (n0, s4)"
      by force
    have eq: "parseF s = paren_body parseE n0 s4"
      using True C by (simp add: parseF.psimps [OF "5.hyps"] paren_body_def)
    show ?thesis
      unfolding eq
      by (rule paren_step [where f = parseE, OF P C
            "5.IH" [OF refl refl P refl refl refl C [symmetric]]])
  next
    case False
    show ?thesis
    proof (cases "terminal (ttype (peek s))")
      case None
      have ty: "ttype (peek s) \<noteq> NUMBER" "ttype (peek s) \<noteq> ID"
        using None by auto
      have eq: "parseF s = (Inl (parseError expected_factor (enter s)), enter s)"
        using False ty by (simp add: parseF.psimps [OF "5.hyps"] Let_def)
      show ?thesis
        unfolding eq fst_conv snd_conv
        by (rule F_throw) (simp_all add: False None)
    next
      case (Some a)
      obtain rl act where a: "a = (rl, act)"
        by (cases a)
      obtain leaf s4 where C1: "createNode (tvalue (peek (enter s))) []
          (consume (logStep rl (act @ quoted (tvalue (peek (enter s)))) (enter s))) = (leaf, s4)"
        by force
      obtain node s5 where C2: "createNode (str ''F'') [leaf] s4 = (node, s5)"
        by force
      have eq: "parseF s = (Inr node, leave s5)"
        using False Some a C1 C2
        by (cases "ttype (peek s)") (simp_all add: parseF.psimps [OF "5.hyps"] Let_def)
      show ?thesis
        unfolding eq fst_conv snd_conv
        by (rule F_terminal [OF _ C1 C2]) (simp add: Some a)
    qed
  qed
qed

lemma parseT_partial_index:
  assumes "parseE_parseEPrime_parseT_parseTPrime_parseF_dom (Inr (Inl s))" and "(r, t) = parseT s"
  shows "tokens t = tokens s \<and> currentIndex s \<le> currentIndex t"
  using run_index [OF run_parse_partial(3) [OF assms(1)]] assms(2) [symmetric] by simp

lemma parseF_partial_index:
  assumes "parseE_parseEPrime_parseT_parseTPrime_parseF_dom (Inr (Inr (Inr s)))" and "(r, t) = parseF s"
  shows "tokens t = tokens s \<and> currentIndex s \<le> currentIndex t"
  using run_index [OF run_parse_partial(5) [OF assms(1)]] assms(2) [symmetric] by simp

definition tokens_left :: "parser_state \<Rightarrow> nat" where
  "tokens_left s = length (tokens s) - currentIndex s"

lemma peek_type_left:
  "ttype (peek s) = ty \<Longrightarrow> ty \<noteq> EOF \<Longrightarrow> tokens_left (consume s) < tokens_left s"
  using peek_in_range [of s] by (auto simp: tokens_left_def)

lemma tokens_left_prim [simp]:
  "tokens_left (enter s) = tokens_left s" "tokens_left (leave s) = tokens_left s"
  "tokens_left (logStep r a s) = tokens_left s" "tokens_left (snd (createNode l cs s)) = tokens_left s"
  by (simp_all add: tokens_left_def createNode_def)

lemma tokens_left_createNode: "(n, t) = createNode l cs s \<Longrightarrow> tokens_left t = tokens_left s"
  by (auto simp: tokens_left_def createNode_def)

lemma parseT_partial_left:
  assumes "parseE_parseEPrime_parseT_parseTPrime_parseF_dom (Inr (Inl s))" and "(r, t) = parseT s"
  shows "tokens_left t \<le> tokens_left s"
  using parseT_partial_index [OF assms] by (auto simp: tokens_left_def)

lemma parseF_partial_left:
  assumes "parseE_parseEPrime_parseT_parseTPrime_parseF_dom (Inr (Inr (Inr s)))" and "(r, t) = parseF s"
  shows "tokens_left t \<le> tokens_left s"
  using parseF_partial_index [OF assms] by (auto simp: tokens_left_def)

lemma step_tokens_left:
  assumes "(n, y) = createNode l cs (consume (logStep r a (enter s)))" and "ttype (peek s) \<noteq> EOF"
  shows "tokens_left y < tokens_left s"
  using assms peek_in_range [of s] by (auto simp: tokens_left_def createNode_def)

lemma parser_total: "All parseE_parseEPrime_parseT_parseTPrime_parseF_dom"
proof (relation "measure (\<lambda>x. case x of
           Inl (Inl s) \<Rightarrow> 4 * tokens_left s + 3
         | Inl (Inr s) \<Rightarrow> 4 * tokens_left s + 1
         | Inr (Inl s) \<Rightarrow> 4 * tokens_left s + 2
         | Inr (Inr (Inl s)) \<Rightarrow> 4 * tokens_left s
         | Inr (Inr (Inr s)) \<Rightarrow> 4 * tokens_left s)", goal_cases)
  case 1
  show ?case by simp
next
  case (2 s x)
  then show ?case by simp
next
  case (3 s x xa y b)
  then show ?case
    using parseT_partial_left [of x xa y] by simp
next
  case (4 s x xa xaa xb xc xd y)
  then show ?case
    using step_tokens_left [of xd y "str ''+''" "[]" rule_EPrime_plus "match (str ''+'')" s] by simp
next
  case (5 s x xa xaa xb xc xd y xe ya b)
  then show ?case
    using step_tokens_left [of xd y "str ''+''" "[]" rule_EPrime_plus "match (str ''+'')" s]
      parseT_partial_left [of y xe ya] by simp
next
  case (6 s x xa xaa xb xc xd y)
  then show ?case
    using step_tokens_left [of xd y "str ''-''" "[]" rule_EPrime_minus "match (str ''-'')" s] by simp
next
  case (7 s x xa xaa xb xc xd y xe ya b)
  then show ?case
    using step_tokens_left [of xd y "str ''-''" "[]" rule_EPrime_minus "match (str ''-'')" s]
      parseT_partial_left [of y xe ya] by simp
next
  case (8 s x)
  then show ?case by simp
next
  case (9 s x xa y b)
  then show ?case
    using parseF_partial_left [of x xa y] by simp
next
  case (10 s x xa xaa xb xc xd y)
  then show ?case
    using step_tokens_left [of xd y "str ''*''" "[]" rule_TPrime_star "match (str ''*'')" s] by simp
next
  case (11 s x xa xaa xb xc xd y xe ya b)
  then show ?case
    using step_tokens_left [of xd y "str ''*''" "[]" rule_TPrime_star "match (str ''*'')" s]
      parseF_partial_left [of y xe ya] by simp
next
  case (12 s x xa xaa xb xc xd y)
  then show ?case
    using step_tokens_left [of xd y "str ''/''" "[]" rule_TPrime_slash "match (str ''/'')" s] by simp
next
  case (13 s x xa xaa xb xc xd y xe ya b)
  then show ?case
    using step_tokens_left [of xd y "str ''/''" "[]" rule_TPrime_slash "match (str ''/'')" s]
      parseF_partial_left [of y xe ya] by simp
next
  case (14 s x xa xaa xb xc xd y)
  then show ?case
    using step_tokens_left [of xd y "str ''(''" "[]" rule_F_paren "match (str ''('')" s] by simp
qed

termination parseE
  by (rule parser_total)

lemma run_parse:
  "run NT_E s (fst (parseE s)) (snd (parseE s))"
  "run NT_EPrime s (fst (parseEPrime s)) (snd (parseEPrime s))"
  "run NT_T s (fst (parseT s)) (snd (parseT s))"
  "run NT_TPrime s (fst (parseTPrime s)) (snd (parseTPrime s))"
  "run NT_F s (fst (parseF s)) (snd (parseF s))"
  using run_parse_partial parser_total by blast+

lemma run_parse_nt: "parse_nt nt s = (r, t) \<Longrightarrow> run nt s r t"
  using run_parse [of s] by (cases nt) auto

declare parseE.simps [simp del] parseEPrime.simps [simp del] parseT.simps [simp del]
  parseTPrime.simps [simp del] parseF.simps [simp del]

subsection \<open>The public function\<close>

record parse_result =
  res_tree :: "node option"
  res_steps :: "step list"
  res_error :: "jsstring option"
  res_errorPos :: "int option"

definition rule_complete :: jsstring where
  "rule_complete = [10003] @ str '' Parse Complete''"

definition rule_error :: jsstring where
  "rule_error = [10007] @ str '' Parse Error''"

text \<open>The body of the \<open>try\<close> block.\<close>

definition parse_try :: "parser_state \<Rightarrow> node outcome" where
  "parse_try s0 =
     (case parseE s0 of
        (Inl err, s1) \<Rightarrow> (Inl err, s1)
      | (Inr tree, s1) \<Rightarrow>
          (let remaining = peek s1 in
           if ttype remaining \<noteq> EOF then (Inl (parseError (str ''end of expression'') s1), s1)
           else (Inr tree, logStep rule_complete (str ''Expression parsed successfully!'') s1)))"

text \<open>
  \<open>parse\<close> starts from whatever values the module variables have (\<open>g\<close>), overwrites all
  five of them, runs the \<open>try\<close> block and handles a \<open>ParseError\<close> in the \<open>catch\<close> block.
  It returns the result object and the module variables it leaves behind.  No other
  kind of exception can arise in the body: every token of the array is an object, so
  \<open>tokens[currentIndex] || ...\<close> and the property reads are defined.  The call stack is
  taken to be unbounded.
\<close>

definition parse :: "parser_state \<Rightarrow> token list \<Rightarrow> parse_result \<times> parser_state" where
  "parse g tokenArray =
     (let s0 = g\<lparr>tokens := tokenArray, currentIndex := 0, steps := [], nodeId := 0, depth := 0\<rparr>
      in case parse_try s0 of
           (Inr tree, s) \<Rightarrow>
             (\<lparr>res_tree = Some tree, res_steps = steps s, res_error = None, res_errorPos = None\<rparr>, s)
         | (Inl err, s) \<Rightarrow>
             (let s' = logStep rule_error (err_message err) s
              in (\<lparr>res_tree = None, res_steps = steps s', res_error = Some (err_message err),
                   res_errorPos = Some (err_pos err)\<rparr>, s')))"


subsection \<open>Notions used to state the properties of the parser\<close>

text \<open>The values of the module variables when the module is loaded.\<close>

definition module_init :: parser_state where
  "module_init = \<lparr>tokens = [], currentIndex = 0, steps = [], nodeId = 0, depth = 0\<rparr>"

definition start :: "token list \<Rightarrow> parser_state" where
  "start tokenArray = \<lparr>tokens = tokenArray, currentIndex = 0, steps = [], nodeId = 0, depth = 0\<rparr>"


text \<open>The nodes of a tree, children before their parent, left to right.\<close>

fun postorder :: "node \<Rightarrow> node list" where
  "postorder (Node i l cs d x) = concat (map postorder cs) @ [Node i l cs d x]"

text \<open>Conditions on the depths of consecutive steps of a trace.\<close>

fun rises_by_at_most_1 :: "int list \<Rightarrow> bool" where
  "rises_by_at_most_1 (d # e # ds) \<longleftrightarrow> e \<le> d + 1 \<and> rises_by_at_most_1 (e # ds)"
| "rises_by_at_most_1 _ \<longleftrightarrow> True"

fun changes_by_at_most_1 :: "int list \<Rightarrow> bool" where
  "changes_by_at_most_1 (d # e # ds) \<longleftrightarrow> \<bar>e - d\<bar> \<le> 1 \<and> changes_by_at_most_1 (e # ds)"
| "changes_by_at_most_1 _ \<longleftrightarrow> True"


text \<open>
  The depths logged so far, and the two relations between them and the current depth
  that hold during a parse: on entry to and on return from a function the current depth
  is at most the depth of the last step; in between and after a \<open>throw\<close> it may be one more.
\<close>

definition depths :: "parser_state \<Rightarrow> int list" where
  "depths s = map step_depth (steps s)"

definition trace_ok :: "parser_state \<Rightarrow> bool" where
  "trace_ok s \<longleftrightarrow> rises_by_at_most_1 (depths s) \<and> (depths s \<noteq> [] \<longrightarrow> depth s \<le> last (depths s))"

definition trace_weak :: "parser_state \<Rightarrow> bool" where
  "trace_weak s \<longleftrightarrow>
     rises_by_at_most_1 (depths s) \<and> (depths s \<noteq> [] \<longrightarrow> depth s \<le> last (depths s) + 1)"



section \<open>Properties of the tokenizer\<close>

lemma id_loop_stops:
  "pos \<le> p \<Longrightarrow> p < length input \<Longrightarrow> \<not> is_id_part (input ! p) \<Longrightarrow> id_loop input pos \<le> p"
proof (induction input pos rule: id_loop.induct)
  case (1 input pos)
  show ?case
  proof (cases "pos = p")
    case True
    then show ?thesis using 1 by (simp add: id_loop.simps)
  next
    case False
    then show ?thesis using 1 by (subst id_loop.simps) auto
  qed
qed

lemma tokenize_loop_abort:
  "p < length input \<Longrightarrow> unexpected (input ! p) \<Longrightarrow> tokenize_loop input p acc = lexical_error (input ! p) p"
  by (subst tokenize_loop.simps) (simp add: unexpected_def)


lemma char_classes:
  "is_digit c \<Longrightarrow> \<not> is_whitespace c \<and> SINGLE_CHAR_TOKENS c = None \<and> c \<noteq> dot"
  "is_id_part c \<Longrightarrow> \<not> is_whitespace c \<and> SINGLE_CHAR_TOKENS c = None \<and> c \<noteq> dot"
  "c = dot \<Longrightarrow> \<not> is_whitespace c \<and> SINGLE_CHAR_TOKENS c = None \<and> \<not> is_digit c \<and> \<not> is_id_start c"
  "is_id_start c \<Longrightarrow> \<not> is_digit c"
  by (auto simp: is_digit_def is_id_part_def is_id_start_def is_whitespace_def SINGLE_CHAR_TOKENS_def)

lemma number_loop_run:
  "pos \<le> i \<Longrightarrow> i < number_loop input pos h \<Longrightarrow> is_digit (input ! i) \<or> input ! i = dot"
proof (induction input pos h rule: number_loop.induct)
  case (1 input pos hasDecimal)
  show ?case
  proof (cases "pos < length input \<and> (is_digit (input ! pos) \<or> input ! pos = dot)")
    case False
    then have "number_loop input pos hasDecimal = pos"
      by (subst number_loop.simps) auto
    then show ?thesis
      using "1.prems" by simp
  next
    case True
    show ?thesis
    proof (cases "i = pos")
      case True
      then show ?thesis
        using \<open>pos < length input \<and> (is_digit (input ! pos) \<or> input ! pos = dot)\<close> by simp
    next
      case False
      then have i: "pos + 1 \<le> i"
        using "1.prems" by simp
      show ?thesis
      proof (cases "input ! pos = dot")
        case dt: True
        show ?thesis
        proof (cases hasDecimal)
          case True
          then have "number_loop input pos hasDecimal = pos"
            using dt by (subst number_loop.simps) auto
          then show ?thesis
            using "1.prems" by simp
        next
          case False
          have eq: "number_loop input pos hasDecimal = number_loop input (pos + 1) True"
            using True dt False by (subst number_loop.simps) simp
          show ?thesis
            using "1.IH"(1) [OF True dt False i] "1.prems"(2) eq by simp
        qed
      next
        case nd: False
        have eq: "number_loop input pos hasDecimal = number_loop input (pos + 1) hasDecimal"
          using True nd by (subst number_loop.simps) simp
        show ?thesis
          using "1.IH"(2) [OF True nd i] "1.prems"(2) eq by simp
      qed
    qed
  qed
qed

lemma number_loop_stops_at_dot:
  "number_loop input pos h < length input \<Longrightarrow> input ! (number_loop input pos h) = dot \<Longrightarrow>
   h \<or> (\<exists>d. pos \<le> d \<and> d < number_loop input pos h \<and> \<not> is_digit (input ! d))"
proof (induction input pos h rule: number_loop.induct)
  case (1 input pos hasDecimal)
  show ?case
  proof (cases "pos < length input \<and> (is_digit (input ! pos) \<or> input ! pos = dot)")
    case False
    then have "number_loop input pos hasDecimal = pos"
      by (subst number_loop.simps) auto
    then show ?thesis
      using "1.prems" False by auto
  next
    case True
    show ?thesis
    proof (cases "input ! pos = dot")
      case dt: True
      show ?thesis
      proof (cases hasDecimal)
        case True
        then show ?thesis by simp
      next
        case False
        have eq: "number_loop input pos hasDecimal = number_loop input (pos + 1) True"
          using True dt False by (subst number_loop.simps) simp
        have "pos < number_loop input (pos + 1) True"
          using number_loop_ge [of "pos + 1" input True] by simp
        then show ?thesis
          using eq dt char_classes(3) [of "input ! pos"] by auto
      qed
    next
      case nd: False
      have eq: "number_loop input pos hasDecimal = number_loop input (pos + 1) hasDecimal"
        using True nd by (subst number_loop.simps) simp
      have "hasDecimal \<or> (\<exists>d. pos + 1 \<le> d \<and> d < number_loop input (pos + 1) hasDecimal
              \<and> \<not> is_digit (input ! d))"
        using "1.IH"(2) [OF True nd] "1.prems" eq by simp
      then show ?thesis
        unfolding eq by auto
    qed
  qed
qed

lemma number_loop_no_skip:
  "pos \<le> q \<Longrightarrow> q < length input \<Longrightarrow> \<not> is_digit (input ! q) \<Longrightarrow>
   input ! q \<noteq> dot \<or> h \<or> (\<exists>d. pos \<le> d \<and> d < q \<and> \<not> is_digit (input ! d)) \<Longrightarrow>
   number_loop input pos h \<le> q"
proof (induction input pos h rule: number_loop.induct)
  case (1 input pos hasDecimal)
  show ?case
  proof (cases "pos = q")
    case True
    then show ?thesis
      using "1.prems" by (subst number_loop.simps) auto
  next
    case False
    then have lt: "pos < q" using "1.prems" by simp
    show ?thesis
    proof (cases "pos < length input \<and> (is_digit (input ! pos) \<or> input ! pos = dot)")
      case False
      then have "number_loop input pos hasDecimal = pos"
        by (subst number_loop.simps) auto
      then show ?thesis using lt by simp
    next
      case True
      show ?thesis
      proof (cases "input ! pos = dot")
        case dt: True
        show ?thesis
        proof (cases hasDecimal)
          case True
          then have "number_loop input pos hasDecimal = pos"
            using dt by (subst number_loop.simps) auto
          then show ?thesis using lt by simp
        next
          case False
          have eq: "number_loop input pos hasDecimal = number_loop input (pos + 1) True"
            using True dt False by (subst number_loop.simps) simp
          show ?thesis
            unfolding eq
            using "1.IH"(1) [OF True dt False] lt "1.prems" by simp
        qed
      next
        case nd: False
        then have dg: "is_digit (input ! pos)" using True by simp
        have eq: "number_loop input pos hasDecimal = number_loop input (pos + 1) hasDecimal"
          using True nd by (subst number_loop.simps) simp
        have "input ! q \<noteq> dot \<or> hasDecimal \<or> (\<exists>d. pos + 1 \<le> d \<and> d < q \<and> \<not> is_digit (input ! d))"
          using "1.prems"(4) dg by (metis Suc_eq_plus1 Suc_leI le_neq_implies_less)
        then show ?thesis
          unfolding eq
          using "1.IH"(2) [OF True nd] lt "1.prems"(2,3) by simp
      qed
    qed
  qed
qed

lemma id_loop_run:
  "pos \<le> i \<Longrightarrow> i < id_loop input pos \<Longrightarrow> is_id_part (input ! i)"
proof (induction input pos rule: id_loop.induct)
  case (1 input pos)
  show ?case
  proof (cases "pos < length input \<and> is_id_part (input ! pos)")
    case False
    then have "id_loop input pos = pos"
      by (subst id_loop.simps) auto
    then show ?thesis
      using "1.prems" by simp
  next
    case True
    have eq: "id_loop input pos = id_loop input (pos + 1)"
      using True by (subst id_loop.simps) simp
    show ?thesis
    proof (cases "i = pos")
      case True
      then show ?thesis
        using \<open>pos < length input \<and> is_id_part (input ! pos)\<close> by simp
    next
      case False
      then have "pos + 1 \<le> i"
        using "1.prems" by simp
      then show ?thesis
        using "1.IH" [OF True] "1.prems"(2) eq by simp
    qed
  qed
qed

lemma id_loop_stop:
  "id_loop input pos < length input \<Longrightarrow> \<not> is_id_part (input ! id_loop input pos)"
proof (induction input pos rule: id_loop.induct)
  case (1 input pos)
  show ?case
  proof (cases "pos < length input \<and> is_id_part (input ! pos)")
    case False
    then have eq: "id_loop input pos = pos"
      by (subst id_loop.simps) auto
    show ?thesis
      using "1.prems" False unfolding eq by simp
  next
    case True
    have eq: "id_loop input pos = id_loop input (pos + 1)"
      using True by (subst id_loop.simps) simp
    show ?thesis
      using "1.IH" [OF True] "1.prems" unfolding eq by simp
  qed
qed

lemma number_loop_stop:
  "number_loop input pos h < length input \<Longrightarrow> \<not> is_digit (input ! number_loop input pos h)"
proof (induction input pos h rule: number_loop.induct)
  case (1 input pos hasDecimal)
  show ?case
  proof (cases "pos < length input \<and> (is_digit (input ! pos) \<or> input ! pos = dot)")
    case False
    then have eq: "number_loop input pos hasDecimal = pos"
      by (subst number_loop.simps) auto
    show ?thesis
      using "1.prems" False unfolding eq by simp
  next
    case True
    show ?thesis
    proof (cases "input ! pos = dot")
      case dt: True
      show ?thesis
      proof (cases hasDecimal)
        case True
        then have eq: "number_loop input pos hasDecimal = pos"
          using dt by (subst number_loop.simps) auto
        show ?thesis
          unfolding eq using dt char_classes(3) by blast
      next
        case False
        have eq: "number_loop input pos hasDecimal = number_loop input (pos + 1) True"
          using True dt False by (subst number_loop.simps) simp
        show ?thesis
          using "1.IH"(1) [OF True dt False] "1.prems" unfolding eq by simp
      qed
    next
      case nd: False
      have eq: "number_loop input pos hasDecimal = number_loop input (pos + 1) hasDecimal"
        using True nd by (subst number_loop.simps) simp
      show ?thesis
        using "1.IH"(2) [OF True nd] "1.prems" unfolding eq by simp
    qed
  qed
qed

lemma scan_point_0: "scan_point input 0"
  by (simp add: scan_point_def boundary_def decimal_point_def)

lemma scan_point_Suc:
  assumes "is_whitespace (input ! pos) \<or> SINGLE_CHAR_TOKENS (input ! pos) \<noteq> None"
  shows "scan_point input (pos + 1)"
proof -
  have "\<not> is_digit (input ! pos)"
    using assms char_classes(1) [of "input ! pos"] by auto
  then have "\<not> decimal_point input (pos + 1)"
    by (auto simp: decimal_point_def)
  then show ?thesis
    using assms by (simp add: scan_point_def boundary_def)
qed

lemma scan_point_after_id:
  assumes "pos < length input" and "is_id_start (input ! pos)"
  shows "scan_point input (id_loop input pos)"
proof -
  let ?r = "id_loop input pos"
  have run: "\<And>i. pos \<le> i \<Longrightarrow> i < ?r \<Longrightarrow> is_id_part (input ! i)"
    using id_loop_run by blast
  have stop: "?r < length input \<Longrightarrow> \<not> is_id_part (input ! ?r)"
    using id_loop_stop by blast
  have "\<not> decimal_point input ?r"
  proof
    assume "decimal_point input ?r"
    then obtain st where st: "st < ?r" "\<forall>i. st \<le> i \<and> i < ?r \<longrightarrow> is_digit (input ! i)"
      "boundary input st"
      by (auto simp: decimal_point_def)
    have "pos < st"
    proof (rule ccontr)
      assume "\<not> pos < st"
      then have "is_digit (input ! pos)"
        using st(2) id_loop_advances [OF assms] by auto
      then show False
        using assms(2) char_classes(4) by blast
    qed
    then have "is_id_part (input ! (st - 1))"
      using run [of "st - 1"] st(1) by auto
    then show False
      using st(3) \<open>pos < st\<close> char_classes(2) [of "input ! (st - 1)"]
      by (auto simp: boundary_def)
  qed
  moreover have "?r < length input \<Longrightarrow> \<not> is_digit (input ! ?r)"
    using stop by (auto simp: is_id_part_def)
  ultimately show ?thesis
    by (simp add: scan_point_def)
qed


lemma scan_point_after_number:
  assumes "pos < length input" and "is_digit (input ! pos)"
  shows "scan_point input (number_loop input pos False)"
proof -
  let ?r = "number_loop input pos False"
  have run: "\<And>i. pos \<le> i \<Longrightarrow> i < ?r \<Longrightarrow> is_digit (input ! i) \<or> input ! i = dot"
    using number_loop_run by blast
  have "\<not> decimal_point input ?r"
  proof
    assume dp: "decimal_point input ?r"
    then obtain st where st: "st < ?r" "\<forall>i. st \<le> i \<and> i < ?r \<longrightarrow> is_digit (input ! i)"
      "boundary input st"
      by (auto simp: decimal_point_def)
    have r: "input ! ?r = dot"
      using dp by (simp add: decimal_point_def)
    have "pos < st"
    proof (rule ccontr)
      assume "\<not> pos < st"
      then have all: "\<forall>i. pos \<le> i \<and> i < ?r \<longrightarrow> is_digit (input ! i)"
        using st(2) by auto
      have "?r < length input"
        using dp by (simp add: decimal_point_def)
      then show False
        using number_loop_stops_at_dot [of input pos False] r all by auto
    qed
    then have "is_digit (input ! (st - 1)) \<or> input ! (st - 1) = dot"
      using run [of "st - 1"] st(1) by auto
    then show False
      using st(3) \<open>pos < st\<close> char_classes(1,3) [of "input ! (st - 1)"]
      by (auto simp: boundary_def)
  qed
  moreover have "?r < length input \<Longrightarrow> \<not> is_digit (input ! ?r)"
    using number_loop_stop by blast
  ultimately show ?thesis
    by (simp add: scan_point_def)
qed


lemma tokenize_loop_offending:
  "pos \<le> q \<Longrightarrow> q < length input \<Longrightarrow> offending input q \<Longrightarrow>
   (\<forall>i. pos \<le> i \<and> i < q \<longrightarrow> \<not> offending input i) \<Longrightarrow> scan_point input pos \<Longrightarrow>
   tokenize_loop input pos acc = lexical_error (input ! q) q"
proof (induction input pos acc rule: tokenize_loop.induct)
  case (1 input pos tokens)
  have unq: "unexpected (input ! q)" and ndp: "\<not> decimal_point input q"
    using "1.prems"(3) by (simp_all add: offending_def)
  show ?case
  proof (cases "pos = q")
    case True
    then show ?thesis
      using "1.prems"(2) unq by (simp add: tokenize_loop_abort)
  next
    case False
    then have lt: "pos < q" "pos < length input"
      using "1.prems" by auto
    have nu: "\<not> unexpected (input ! pos)"
      using "1.prems"(4,5) lt by (auto simp: offending_def scan_point_def)
    have later: "\<forall>i. p \<le> i \<and> i < q \<longrightarrow> \<not> offending input i" if "pos \<le> p" for p
      using "1.prems"(4) that by auto
    note rest = "1.prems"(2,3)
    show ?thesis
    proof (cases "is_whitespace (input ! pos)")
      case True
      have "tokenize_loop input (pos + 1) tokens = lexical_error (input ! q) q"
        using "1.IH"(1) [OF lt(2) refl True _ rest later scan_point_Suc] lt True by simp
      then show ?thesis
        using lt True by (subst tokenize_loop.simps) simp
    next
      case ws: False
      show ?thesis
      proof (cases "SINGLE_CHAR_TOKENS (input ! pos)")
        case (Some type)
        have "tokenize_loop input (pos + 1)
                (tokens @ [createToken type [input ! pos] pos (pos + 1)]) = lexical_error (input ! q) q"
          using "1.IH"(4) [OF lt(2) refl ws Some _ rest later scan_point_Suc] lt Some by simp
        then show ?thesis
          using lt ws Some by (subst tokenize_loop.simps) simp
      next
        case None
        show ?thesis
        proof (cases "is_digit (input ! pos)")
          case True
          let ?r = "number_loop input pos False"
          have bd: "boundary input pos"
            using "1.prems"(5) lt True by (simp add: scan_point_def)
          have "input ! q \<noteq> dot \<or> False \<or> (\<exists>d. pos \<le> d \<and> d < q \<and> \<not> is_digit (input ! d))"
          proof (cases "input ! q = dot")
            case True
            then have "(\<exists>i\<in>{pos..<q}. \<not> is_digit (input ! i)) \<or> \<not> boundary input pos"
              using ndp lt "1.prems"(2) by (simp add: decimal_point_def)
            then show ?thesis
              using bd by auto
          qed simp
          then have r: "?r \<le> q" "pos \<le> ?r"
            using number_loop_no_skip [of pos q input False] "1.prems"(2) unq lt
              number_loop_ge [of pos input False]
            by (auto simp: unexpected_def)
          have "tokenize_loop input ?r
                  (tokens @ [createToken NUMBER (slice input pos ?r) pos ?r]) = lexical_error (input ! q) q"
            using "1.IH"(2) [OF lt(2) refl ws None True refl refl r(1) rest later [OF r(2)]
                scan_point_after_number [OF lt(2) True]] .
          then show ?thesis
            using lt ws None True by (subst tokenize_loop.simps) (simp add: Let_def)
        next
          case dg: False
          then have ids: "is_id_start (input ! pos)"
            using nu ws None by (simp add: unexpected_def)
          let ?r = "id_loop input pos"
          have r: "?r \<le> q" "pos \<le> ?r"
            using id_loop_stops [of pos q input] "1.prems"(2) unq lt id_loop_ge [of pos input]
            by (auto simp: unexpected_def is_id_part_def)
          have "tokenize_loop input ?r
                  (tokens @ [createToken ID (slice input pos ?r) pos ?r]) = lexical_error (input ! q) q"
            using "1.IH"(3) [OF lt(2) refl ws None dg ids refl refl r(1) rest later [OF r(2)]
                scan_point_after_id [OF lt(2) ids]] .
          then show ?thesis
            using lt ws None dg ids by (subst tokenize_loop.simps) (simp add: Let_def)
        qed
      qed
    qed
  qed
qed

lemma tokenize_loop_no_offending:
  "pos \<le> length input \<Longrightarrow> (\<forall>i. pos \<le> i \<and> i < length input \<longrightarrow> \<not> offending input i) \<Longrightarrow>
   scan_point input pos \<Longrightarrow> lex_error (tokenize_loop input pos acc) = None"
proof (induction input pos acc rule: tokenize_loop.induct)
  case (1 input pos tokens)
  show ?case
  proof (cases "pos < length input")
    case False
    then show ?thesis
      by (subst tokenize_loop.simps) simp
  next
    case lt: True
    have nu: "\<not> unexpected (input ! pos)"
      using "1.prems"(2,3) lt by (auto simp: offending_def scan_point_def)
    have later: "\<forall>i. p \<le> i \<and> i < length input \<longrightarrow> \<not> offending input i" if "pos \<le> p" for p
      using "1.prems"(2) that by auto
    show ?thesis
    proof (cases "is_whitespace (input ! pos)")
      case True
      have "lex_error (tokenize_loop input (pos + 1) tokens) = None"
        using "1.IH"(1) [OF lt refl True _ later scan_point_Suc] lt True by simp
      then show ?thesis
        using lt True by (subst tokenize_loop.simps) simp
    next
      case ws: False
      show ?thesis
      proof (cases "SINGLE_CHAR_TOKENS (input ! pos)")
        case (Some type)
        have "lex_error (tokenize_loop input (pos + 1)
                (tokens @ [createToken type [input ! pos] pos (pos + 1)])) = None"
          using "1.IH"(4) [OF lt refl ws Some _ later scan_point_Suc] lt Some by simp
        then show ?thesis
          using lt ws Some by (subst tokenize_loop.simps) simp
      next
        case None
        show ?thesis
        proof (cases "is_digit (input ! pos)")
          case True
          let ?r = "number_loop input pos False"
          have r: "?r \<le> length input" "pos \<le> ?r"
            using number_loop_le [of pos input False] lt number_loop_ge [of pos input False] by simp_all
          have "lex_error (tokenize_loop input ?r
                  (tokens @ [createToken NUMBER (slice input pos ?r) pos ?r])) = None"
            using "1.IH"(2) [OF lt refl ws None True refl refl r(1) later [OF r(2)]
                scan_point_after_number [OF lt True]] .
          then show ?thesis
            using lt ws None True by (subst tokenize_loop.simps) (simp add: Let_def)
        next
          case dg: False
          then have ids: "is_id_start (input ! pos)"
            using nu ws None by (simp add: unexpected_def)
          let ?r = "id_loop input pos"
          have r: "?r \<le> length input" "pos \<le> ?r"
            using id_loop_le [of pos input] lt id_loop_ge [of pos input] by simp_all
          have "lex_error (tokenize_loop input ?r
                  (tokens @ [createToken ID (slice input pos ?r) pos ?r])) = None"
            using "1.IH"(3) [OF lt refl ws None dg ids refl refl r(1) later [OF r(2)]
                scan_point_after_id [OF lt ids]] .
          then show ?thesis
            using lt ws None dg ids by (subst tokenize_loop.simps) (simp add: Let_def)
        qed
      qed
    qed
  qed
qed

lemma SINGLE_CHAR_TOKENS_not_EOF: "SINGLE_CHAR_TOKENS c = Some ty \<Longrightarrow> ty \<noteq> EOF"
  by (auto simp: SINGLE_CHAR_TOKENS_def split: if_splits)

lemma tokenize_loop_success:
  "pos \<le> length input \<Longrightarrow> \<forall>t\<in>set acc. ttype t \<noteq> EOF \<Longrightarrow>
   lex_error (tokenize_loop input pos acc) = None \<Longrightarrow>
   \<exists>ts. tokenize_loop input pos acc =
          \<lparr>lex_tokens = ts @ [eof_token (length input)], lex_error = None, lex_errorPos = None\<rparr>
        \<and> (\<forall>t\<in>set ts. ttype t \<noteq> EOF)"
proof (induction input pos acc rule: tokenize_loop.induct)
  case (1 input pos tokens)
  show ?case
  proof (cases "pos < length input")
    case False
    then have "pos = length input" using "1.prems" by simp
    then show ?thesis
      using "1.prems"(2) by (subst tokenize_loop.simps) (simp add: eof_token_def createToken_def)
  next
    case lt: True
    show ?thesis
    proof (cases "is_whitespace (input ! pos)")
      case True
      have eq: "tokenize_loop input pos tokens = tokenize_loop input (pos + 1) tokens"
        using lt True by (subst tokenize_loop.simps) simp
      show ?thesis
        unfolding eq
        using "1.IH"(1) [OF lt refl True] lt "1.prems"(2,3) eq by simp
    next
      case ws: False
      show ?thesis
      proof (cases "SINGLE_CHAR_TOKENS (input ! pos)")
        case (Some type)
        let ?acc = "tokens @ [createToken type [input ! pos] pos (pos + 1)]"
        have eq: "tokenize_loop input pos tokens = tokenize_loop input (pos + 1) ?acc"
          using lt ws Some by (subst tokenize_loop.simps) simp
        have acc: "\<forall>t\<in>set ?acc. ttype t \<noteq> EOF"
          using "1.prems"(2) SINGLE_CHAR_TOKENS_not_EOF [OF Some] by (simp add: createToken_def)
        show ?thesis
          unfolding eq
          using "1.IH"(4) [OF lt refl ws Some _ acc] lt "1.prems"(3) eq by simp
      next
        case None
        show ?thesis
        proof (cases "is_digit (input ! pos)")
          case True
          let ?q = "number_loop input pos False"
          let ?acc = "tokens @ [createToken NUMBER (slice input pos ?q) pos ?q]"
          have eq: "tokenize_loop input pos tokens = tokenize_loop input ?q ?acc"
            using lt ws None True by (subst tokenize_loop.simps) (simp add: Let_def)
          have acc: "\<forall>t\<in>set ?acc. ttype t \<noteq> EOF"
            using "1.prems"(2) by (simp add: createToken_def)
          have q: "?q \<le> length input"
            using number_loop_le [of pos input False] lt by simp
          show ?thesis
            unfolding eq
            using "1.IH"(2) [OF lt refl ws None True refl refl q acc] "1.prems"(3) eq by simp
        next
          case dg: False
          show ?thesis
          proof (cases "is_id_start (input ! pos)")
            case True
            let ?q = "id_loop input pos"
            let ?acc = "tokens @ [createToken ID (slice input pos ?q) pos ?q]"
            have eq: "tokenize_loop input pos tokens = tokenize_loop input ?q ?acc"
              using lt ws None dg True by (subst tokenize_loop.simps) (simp add: Let_def)
            have acc: "\<forall>t\<in>set ?acc. ttype t \<noteq> EOF"
              using "1.prems"(2) by (simp add: createToken_def)
            have q: "?q \<le> length input"
              using id_loop_le [of pos input] lt by simp
            show ?thesis
              unfolding eq
              using "1.IH"(3) [OF lt refl ws None dg True refl refl q acc] "1.prems"(3) eq by simp
          next
            case False
            have "tokenize_loop input pos tokens = lexical_error (input ! pos) pos"
              using lt ws None dg False by (subst tokenize_loop.simps) simp
            then show ?thesis
              using "1.prems"(3) by (simp add: lexical_error_def)
          qed
        qed
      qed
    qed
  qed
qed


text \<open>The equations that evaluate the tokenizer on a concrete input.\<close>

lemmas tokenize_eval = tokenize_def tokenize_loop.simps number_loop.simps id_loop.simps str_def
  is_whitespace_def SINGLE_CHAR_TOKENS_def is_digit_def is_id_start_def is_id_part_def
  lexical_error_def unexpected_character_def string_of_nat.simps slice_def createToken_def
  eof_token_def unexpected_def Let_def

text \<open>
  Claim C1, as stated: \<open>tokenize("1.2.3")\<close> returns the token list \<open>[NUMBER "1.2"]\<close> together
  with the lexical error.  The error return of the code is \<open>tokens: []\<close>: the number token
  scanned before the error is not in the result.
\<close>

theorem tokenize_second_dot_counterexample:
  "lex_tokens (tokenize (str ''1.2.3'')) \<noteq> [createToken NUMBER (str ''1.2'') 0 3]"
  by (simp add: tokenize_eval)

text \<open>
  Claim C1, amended: \<open>tokenize("1.2.3")\<close> returns an empty token list, the message
  \<open>Unexpected character '.' at position 3\<close> and \<open>errorPos\<close> 3.  The number run that starts
  at position 0 stops at position 3 with the second dot unconsumed, and the error comes
  from the next iteration of the scan, entered at position 3 with the token
  \<open>NUMBER "1.2"\<close> accumulated.
\<close>

theorem tokenize_second_dot:
  "tokenize (str ''1.2.3'') =
     \<lparr>lex_tokens = [], lex_error = Some (str ''Unexpected character '.' at position 3''),
      lex_errorPos = Some 3\<rparr>
   \<and> number_loop (str ''1.2.3'') 0 False = 3
   \<and> tokenize (str ''1.2.3'') =
       tokenize_loop (str ''1.2.3'') 3 [createToken NUMBER (str ''1.2'') 0 3]"
  by (simp add: tokenize_eval)

text \<open>
  Claim C6: whenever tokenization succeeds (\<open>error\<close> is null), the token list is some
  tokens, none of type EOF, followed by one EOF token with value \<open>"EOF"\<close> whose \<open>pos\<close> and
  \<open>end\<close> are the input length, and \<open>errorPos\<close> is null as well; the empty input gives
  exactly that EOF token.
\<close>

theorem tokenize_success_eof:
  "(lex_error (tokenize input) = None \<longrightarrow>
      (\<exists>ts. tokenize input =
              \<lparr>lex_tokens = ts @ [eof_token (length input)], lex_error = None,
               lex_errorPos = None\<rparr>
            \<and> (\<forall>t\<in>set ts. ttype t \<noteq> EOF)))
   \<and> tokenize [] = \<lparr>lex_tokens = [eof_token 0], lex_error = None, lex_errorPos = None\<rparr>"
proof
  show "lex_error (tokenize input) = None \<longrightarrow>
      (\<exists>ts. tokenize input =
              \<lparr>lex_tokens = ts @ [eof_token (length input)], lex_error = None,
               lex_errorPos = None\<rparr>
            \<and> (\<forall>t\<in>set ts. ttype t \<noteq> EOF))"
    using tokenize_loop_success [of 0 input "[]"] by (simp add: tokenize_def)
  show "tokenize [] = \<lparr>lex_tokens = [eof_token 0], lex_error = None, lex_errorPos = None\<rparr>"
    by (simp add: tokenize_eval)
qed

theorem tokenize_success_eof_witness:
  "lex_error (tokenize (str ''(3+5)*2'')) = None
   \<and> last (lex_tokens (tokenize (str ''(3+5)*2''))) = eof_token 7
   \<and> filter (\<lambda>t. ttype t = EOF) (butlast (lex_tokens (tokenize (str ''(3+5)*2'')))) = []"
proof -
  have ok: "lex_error (tokenize (str ''(3+5)*2'')) = None"
    by (simp add: tokenize_eval)
  have len: "length (str ''(3+5)*2'') = 7"
    by (simp add: str_def)
  from tokenize_success_eof [of "str ''(3+5)*2''"] ok len
  obtain ts where "lex_tokens (tokenize (str ''(3+5)*2'')) = ts @ [eof_token 7]"
    and "\<forall>t\<in>set ts. ttype t \<noteq> EOF"
    by auto
  then show ?thesis
    using ok by (simp add: filter_empty_conv)
qed

text \<open>
  Claim C7, as stated: every input that contains a character starting no token is
  rejected at the first such character.  The dot starts no token, and \<open>"1.2"\<close> contains
  one, yet it is consumed as the decimal point of the number and the call succeeds.
\<close>

theorem tokenize_unexpected_character_counterexample:
  "unexpected (str ''1.2'' ! 1)
   \<and> tokenize (str ''1.2'') =
       \<lparr>lex_tokens = [createToken NUMBER (str ''1.2'') 0 3, eof_token 3], lex_error = None,
        lex_errorPos = None\<rparr>"
  by (simp add: tokenize_eval)

text \<open>
  Claim C7, amended: for every input string containing a character that starts no token
  and is not a dot taken as the decimal point of a number, \<open>tokenize\<close> aborts at the first
  such character: it returns an empty token list, the message
  \<open>Unexpected character '<ch>' at position <pos>\<close> and \<open>errorPos\<close> equal to that position,
  as data.  An input without such a character is tokenized without error, and every
  error result is of that form.
\<close>

theorem tokenize_unexpected_character:
  "(q < length input \<and> offending input q \<and> (\<forall>i<q. \<not> offending input i) \<longrightarrow>
      tokenize input = lexical_error (input ! q) q)
   \<and> ((\<forall>i<length input. \<not> offending input i) \<longrightarrow> lex_error (tokenize input) = None)
   \<and> (lex_error (tokenize input) \<noteq> None \<longrightarrow>
        (\<exists>q<length input. offending input q \<and> (\<forall>i<q. \<not> offending input i)
           \<and> tokenize input = lexical_error (input ! q) q))"
proof -
  have first: "tokenize input = lexical_error (input ! q) q"
    if "q < length input" and "offending input q" and "\<forall>i<q. \<not> offending input i" for q
    using that tokenize_loop_offending [of 0 q input "[]"] scan_point_0 [of input]
    by (simp add: tokenize_def)
  have none: "lex_error (tokenize input) = None" if "\<forall>i<length input. \<not> offending input i"
    using that tokenize_loop_no_offending [of 0 input "[]"] scan_point_0 [of input]
    by (simp add: tokenize_def)
  have some: "\<exists>q<length input. offending input q \<and> (\<forall>i<q. \<not> offending input i)
          \<and> tokenize input = lexical_error (input ! q) q"
    if "lex_error (tokenize input) \<noteq> None"
  proof -
    let ?P = "\<lambda>i. i < length input \<and> offending input i"
    have "\<exists>i. ?P i"
    proof (rule ccontr)
      assume "\<not> (\<exists>i. ?P i)"
      then have "\<forall>i<length input. \<not> offending input i"
        by simp
      then show False
        using none that by simp
    qed
    then obtain q where q: "?P q" and least: "\<forall>j<q. \<not> ?P j"
      using exists_least_iff [of ?P] by blast
    have "\<forall>j<q. \<not> offending input j"
    proof (intro allI impI)
      fix j
      assume "j < q"
      then have "j < length input" "\<not> ?P j"
        using q least by simp_all
      then show "\<not> offending input j"
        by simp
    qed
    then have "q < length input \<and> offending input q \<and> (\<forall>i<q. \<not> offending input i)
        \<and> tokenize input = lexical_error (input ! q) q"
      using q first [of q] by simp
    then show ?thesis
      by (rule_tac x = q in exI) simp
  qed
  show ?thesis
  proof (intro conjI impI)
    assume "q < length input \<and> offending input q \<and> (\<forall>i<q. \<not> offending input i)"
    then show "tokenize input = lexical_error (input ! q) q"
      using first [of q] by simp
  next
    assume "\<forall>i<length input. \<not> offending input i"
    then show "lex_error (tokenize input) = None"
      by (rule none)
  next
    assume "lex_error (tokenize input) \<noteq> None"
    then show "\<exists>q<length input. offending input q \<and> (\<forall>i<q. \<not> offending input i)
          \<and> tokenize input = lexical_error (input ! q) q"
      by (rule some)
  qed
qed

lemmas offending_eval = offending_def decimal_point_def boundary_def unexpected_def str_def
  is_whitespace_def SINGLE_CHAR_TOKENS_def is_digit_def is_id_start_def

lemma all_less_3: "(\<forall>i<3. P i) \<longleftrightarrow> P 0 \<and> P 1 \<and> P (2::nat)"
  by (auto simp: less_Suc_eq numeral_3_eq_3 numeral_2_eq_2)

theorem tokenize_unexpected_character_witness:
  "3 < length (str ''1.2$'') \<and> offending (str ''1.2$'') 3
   \<and> tokenize (str ''1.2$'') =
       \<lparr>lex_tokens = [], lex_error = Some (str ''Unexpected character '$' at position 3''),
        lex_errorPos = Some 3\<rparr>
   \<and> lex_error (tokenize (str ''1.5'')) = None"
proof -
  have h1: "3 < length (str ''1.2$'')"
    by (simp add: str_def)
  have h2: "offending (str ''1.2$'') 3"
    by (simp add: offending_eval)
  have h3: "\<forall>i<3. \<not> offending (str ''1.2$'') i"
    unfolding all_less_3 by (simp add: offending_eval)
  have len: "length (str ''1.5'') = 3"
    by (simp add: str_def)
  have h4: "\<forall>i<length (str ''1.5''). \<not> offending (str ''1.5'') i"
    unfolding len all_less_3 by (simp add: offending_eval)
  have "tokenize (str ''1.2$'') = lexical_error (str ''1.2$'' ! 3) 3"
    using tokenize_unexpected_character [of 3 "str ''1.2$''"] h1 h2 h3 by blast
  moreover have "lex_error (tokenize (str ''1.5'')) = None"
    using tokenize_unexpected_character [of 0 "str ''1.5''"] h4 by blast
  ultimately show ?thesis
    using h1 h2
    by (simp add: lexical_error_def unexpected_character_def str_def string_of_nat.simps)
qed


section \<open>Properties of the parser\<close>

lemma parse_start: "g\<lparr>tokens := ts, currentIndex := 0, steps := [], nodeId := 0, depth := 0\<rparr> = start ts"
  by (simp add: start_def)

lemmas parse_eval = parse_def parse_try_def parseE.simps parseEPrime.simps parseT.simps
  parseTPrime.simps parseF.simps peek_def consume_def createNode_def logStep_def enter_def
  leave_def parseError_def Let_def module_init_def

lemma run_error:
  "run nt s r t \<Longrightarrow> r = Inl err \<Longrightarrow> \<exists>expected. err = parseError expected t"
  by (induction arbitrary: err rule: run.induct) auto


lemma prim_nodeId [simp]:
  "nodeId (enter s) = nodeId s" "nodeId (leave s) = nodeId s" "nodeId (consume s) = nodeId s"
  "nodeId (logStep r a s) = nodeId s"
  by (simp_all add: enter_def leave_def consume_def logStep_def)

lemma createNode_eq:
  "createNode l cs s = (n, t) \<longleftrightarrow> n = Node (nodeId s) l cs None None \<and> t = s\<lparr>nodeId := nodeId s + 1\<rparr>"
  by (auto simp: createNode_def)

lemma run_nodeId: "run nt s r t \<Longrightarrow> nodeId s \<le> nodeId t"
  by (induction rule: run.induct) (auto simp: createNode_eq)


lemma upt_join:
  "a \<le> b \<Longrightarrow> b \<le> c \<Longrightarrow> [a..<b] @ [b..<c] @ xs = [a..<c] @ xs"
  "a \<le> b \<Longrightarrow> b \<le> c \<Longrightarrow> [a..<b] @ [b..<c] = [a..<c]"
  "a < b \<Longrightarrow> a # [Suc a..<b] @ xs = [a..<b] @ xs"
  "a < b \<Longrightarrow> a # [Suc a..<b] = [a..<b]"
proof -
  show *: "[a..<b] @ [b..<c] = [a..<c]" if "a \<le> b" "b \<le> c"
    using that by (metis le_Suc_ex upt_add_eq_append)
  then show "[a..<b] @ [b..<c] @ xs = [a..<c] @ xs" if "a \<le> b" "b \<le> c"
    using that by (metis append_assoc)
  show "a # [Suc a..<b] @ xs = [a..<b] @ xs" if "a < b"
    using that by (simp add: upt_conv_Cons)
  show "a # [Suc a..<b] = [a..<b]" if "a < b"
    using that by (simp add: upt_conv_Cons)
qed

lemma run_ids:
  "run nt s r t \<Longrightarrow> r = Inr n \<Longrightarrow> map nid (postorder n) = [nodeId s..<nodeId t]"
proof (induction arbitrary: n rule: run.induct)
  case (level_return nt sub pr rl ent ext lbl s n1 s2 n2 s3 node s4)
  have "nodeId s \<le> nodeId s2" "nodeId s2 \<le> nodeId s3"
    using run_nodeId [OF level_return.hyps(2)] run_nodeId [OF level_return.hyps(3)] by simp_all
  then show ?case
    using level_return.IH [OF refl] level_return.hyps(4) level_return.prems
    by (clarsimp simp: createNode_eq upt_join)
next
  case (prime_return nt sub lbl eps s rl glyph n0 s4 n1 s5 n2 s6 node s7)
  have "nodeId s < nodeId s4" "nodeId s4 \<le> nodeId s5" "nodeId s5 \<le> nodeId s6"
    using run_nodeId [OF prime_return.hyps(4)] run_nodeId [OF prime_return.hyps(5)]
      prime_return.hyps(3)
    by (simp_all add: createNode_eq)
  then show ?case
    using prime_return.IH [OF refl] prime_return.hyps(3,6) prime_return.prems
    by (clarsimp simp: createNode_eq upt_join)
next
  case (prime_epsilon nt sub lbl eps s n0 s3 node s4)
  then show ?case
    by (clarsimp simp: createNode_eq)
next
  case (F_paren_return s n0 s4 n1 s5 n2 s8 node s9)
  have "nodeId s < nodeId s4" "nodeId s4 \<le> nodeId s5"
    using run_nodeId [OF F_paren_return.hyps(3)] F_paren_return.hyps(2)
    by (simp_all add: createNode_eq)
  then show ?case
    using F_paren_return.IH [OF refl] F_paren_return.hyps(2,5,6) F_paren_return.prems
    by (clarsimp simp: createNode_eq upt_join)
next
  case (F_terminal s rl act leaf s4 node s5)
  then show ?case
    by (clarsimp simp: createNode_eq)
qed simp_all


lemma rises_snoc:
  "rises_by_at_most_1 (ds @ [d]) \<longleftrightarrow> rises_by_at_most_1 ds \<and> (ds \<noteq> [] \<longrightarrow> d \<le> last ds + 1)"
  by (induction ds rule: rises_by_at_most_1.induct) auto

lemma prim_depth [simp]:
  "depth (enter s) = depth s + 1" "depth (leave s) = depth s - 1" "depth (consume s) = depth s"
  "depth (logStep r a s) = depth s"
  by (simp_all add: enter_def leave_def consume_def logStep_def)

lemma prim_depths [simp]:
  "depths (enter s) = depths s" "depths (leave s) = depths s" "depths (consume s) = depths s"
  "depths (logStep r a s) = depths s @ [depth s]" "depths (s\<lparr>nodeId := k\<rparr>) = depths s"
  by (simp_all add: depths_def enter_def leave_def consume_def logStep_def)

lemma trace_prim:
  "trace_ok s \<Longrightarrow> trace_weak s"
  "trace_ok s \<Longrightarrow> trace_weak (enter s)"
  "trace_ok s \<Longrightarrow> trace_ok (logStep r a (enter s))"
  "trace_weak s \<Longrightarrow> trace_ok (logStep r a s)"
  "trace_ok s \<Longrightarrow> trace_ok (leave s)"
  "trace_ok (consume s) = trace_ok s"
  "trace_ok (s\<lparr>nodeId := k\<rparr>) = trace_ok s"
  by (auto simp: trace_ok_def trace_weak_def rises_snoc)

lemma run_trace:
  "run nt s r t \<Longrightarrow> trace_ok s \<Longrightarrow>
     (case r of Inl err \<Rightarrow> trace_weak t | Inr n \<Rightarrow> trace_ok t \<and> depth t = depth s)"
  by (induction rule: run.induct) (auto simp: createNode_eq trace_prim)


end
